theory Spec2Isabelle
  imports Main "HOL-Library.Word"
begin

section \<open>The CTIRegistry contract\<close>

text \<open>
  A shallow embedding of the Solidity contract \<open>CTIRegistry\<close> (pragma \<open>^0.8.19\<close>).
  \<open>uint256\<close> is a 256-bit word; \<open>int256\<close> is the same word read in two's complement
  (\<open>sint\<close>); an \<open>address\<close> is a 160-bit word. Arithmetic is checked, as it is from
  Solidity 0.8 on: an overflowing \<open>++\<close> or \<open>-\<close> reverts with \<open>Panic(0x11)\<close>. A failed
  \<open>require\<close> reverts with its message. Storage mappings are total functions whose
  unwritten slots hold the zero value of the value type.

  Names are the contract's, with two changes: the field \<open>id\<close> of the struct is \<open>cti_id\<close>
  (\<open>id\<close> is the identity function of HOL), and a parameter \<open>_x\<close> of a Solidity function
  is \<open>p_x\<close>. The getters that Solidity generates for the public state variables read the
  state and cannot fail; they are the record's selectors.
\<close>

type_synonym uint256 = "256 word"
type_synonym int256 = "256 word"
type_synonym address = "160 word"

record CTI =
  cti_id :: uint256
  submitter :: address
  ipfsHash :: string
  category :: string
  title :: string
  timestamp :: uint256
  upvotes :: uint256
  downvotes :: uint256
  isActive :: bool

datatype event =
    CTISubmitted uint256 address string string string
  | CTIVoted uint256 address bool
  | CTIDeactivated uint256

text \<open>
  The contract's storage, and the events emitted so far (\<open>emitted\<close>, oldest first).
\<close>

record state =
  ctiCounter :: uint256
  ctiRecords :: "uint256 \<Rightarrow> CTI"
  hasVoted :: "uint256 \<Rightarrow> address \<Rightarrow> bool"
  userSubmissions :: "address \<Rightarrow> uint256"
  emitted :: "event list"

text \<open>
  \<open>Error m\<close> is a revert with the message \<open>m\<close> of a failed \<open>require\<close>; \<open>Panic c\<close> is a
  revert with the panic code \<open>c\<close>: 17 (0x11) on arithmetic overflow, 50 (0x32) on an array
  index out of bounds.
\<close>

datatype error = Error string | Panic nat

definition zero_CTI :: CTI where
  "zero_CTI = \<lparr>cti_id = 0, submitter = 0, ipfsHash = [], category = [], title = [],
     timestamp = 0, upvotes = 0, downvotes = 0, isActive = False\<rparr>"

text \<open>The state after deployment: \<open>ctiCounter = 0\<close>, every mapping empty.\<close>

definition init_state :: state where
  "init_state = \<lparr>ctiCounter = 0, ctiRecords = (\<lambda>_. zero_CTI), hasVoted = (\<lambda>_ _. False),
     userSubmissions = (\<lambda>_. 0), emitted = []\<rparr>"

text \<open>\<open>x++\<close> on a \<open>uint256\<close>.\<close>

definition checked_inc :: "uint256 \<Rightarrow> error + uint256" where
  "checked_inc x = (if x = - 1 then Inl (Panic 17) else Inr (x + 1))"

text \<open>\<open>a - b\<close> on \<open>int256\<close>: reverts when the difference leaves the signed range.\<close>

definition checked_sub_int256 :: "int256 \<Rightarrow> int256 \<Rightarrow> error + int256" where
  "checked_sub_int256 a b =
     (if sint a - sint b < - (2 ^ 255) \<or> 2 ^ 255 \<le> sint a - sint b then Inl (Panic 17)
      else Inr (a - b))"

subsection \<open>Modifiers\<close>

definition validCTI :: "state \<Rightarrow> uint256 \<Rightarrow> error + unit" where
  "validCTI s p_id =
     (if \<not> (p_id > 0 \<and> p_id \<le> ctiCounter s) then Inl (Error ''CTI does not exist'')
      else if \<not> isActive (ctiRecords s p_id) then Inl (Error ''CTI is not active'')
      else Inr ())"

definition hasNotVoted :: "state \<Rightarrow> address \<Rightarrow> uint256 \<Rightarrow> error + unit" where
  "hasNotVoted s sender p_id =
     (if \<not> \<not> hasVoted s p_id sender then Inl (Error ''Already voted on this CTI'')
      else Inr ())"

subsection \<open>State-changing functions\<close>

text \<open>
  \<open>sender\<close> is \<open>msg.sender\<close> and \<open>now\<close> is \<open>block.timestamp\<close>. The function has no
  \<open>returns\<close> clause: a successful call yields the new state only.
\<close>

definition submitCTI ::
  "address \<Rightarrow> uint256 \<Rightarrow> string \<Rightarrow> string \<Rightarrow> string \<Rightarrow> state \<Rightarrow> error + state" where
  "submitCTI sender now p_ipfsHash p_category p_title s =
     (if \<not> length p_ipfsHash > 0 then Inl (Error ''IPFS hash cannot be empty'')
      else if \<not> length p_category > 0 then Inl (Error ''Category cannot be empty'')
      else if \<not> length p_title > 0 then Inl (Error ''Title cannot be empty'')
      else case checked_inc (ctiCounter s) of
        Inl e \<Rightarrow> Inl e
      | Inr c \<Rightarrow>
         (let s1 = s\<lparr>ctiCounter := c\<rparr>;
              s2 = s1\<lparr>ctiRecords := (ctiRecords s1)(ctiCounter s1 :=
                     \<lparr>cti_id = ctiCounter s1, submitter = sender, ipfsHash = p_ipfsHash,
                      category = p_category, title = p_title, timestamp = now,
                      upvotes = 0, downvotes = 0, isActive = True\<rparr>)\<rparr>
          in case checked_inc (userSubmissions s2 sender) of
               Inl e \<Rightarrow> Inl e
             | Inr u \<Rightarrow>
                 Inr (s2\<lparr>userSubmissions := (userSubmissions s2)(sender := u),
                        emitted := emitted s2 @
                          [CTISubmitted (ctiCounter s2) sender p_ipfsHash p_category p_title]\<rparr>)))"

definition voteCTI :: "address \<Rightarrow> uint256 \<Rightarrow> bool \<Rightarrow> state \<Rightarrow> error + state" where
  "voteCTI sender p_id p_isUpvote s =
     (case validCTI s p_id of
        Inl e \<Rightarrow> Inl e
      | Inr _ \<Rightarrow>
     (case hasNotVoted s sender p_id of
        Inl e \<Rightarrow> Inl e
      | Inr _ \<Rightarrow>
     (if \<not> submitter (ctiRecords s p_id) \<noteq> sender
      then Inl (Error ''Cannot vote on own submission'')
      else
        let s1 = s\<lparr>hasVoted := (hasVoted s)(p_id := (hasVoted s p_id)(sender := True))\<rparr>;
            r = ctiRecords s1 p_id
        in case (if p_isUpvote
                 then map_sum (\<lambda>e. e) (\<lambda>u. r\<lparr>upvotes := u\<rparr>) (checked_inc (upvotes r))
                 else map_sum (\<lambda>e. e) (\<lambda>d. r\<lparr>downvotes := d\<rparr>) (checked_inc (downvotes r))) of
             Inl e \<Rightarrow> Inl e
           | Inr r' \<Rightarrow>
               Inr (s1\<lparr>ctiRecords := (ctiRecords s1)(p_id := r'),
                      emitted := emitted s1 @ [CTIVoted p_id sender p_isUpvote]\<rparr>))))"

subsection \<open>View functions\<close>

definition getCTI :: "state \<Rightarrow> uint256 \<Rightarrow> error + CTI" where
  "getCTI s p_id =
     (case validCTI s p_id of Inl e \<Rightarrow> Inl e | Inr _ \<Rightarrow> Inr (ctiRecords s p_id))"

definition getCTIScore :: "state \<Rightarrow> uint256 \<Rightarrow> error + int256" where
  "getCTIScore s p_id =
     (case validCTI s p_id of
        Inl e \<Rightarrow> Inl e
      | Inr _ \<Rightarrow> (let cti = ctiRecords s p_id in checked_sub_int256 (upvotes cti) (downvotes cti)))"

definition hasUserVoted :: "state \<Rightarrow> uint256 \<Rightarrow> address \<Rightarrow> bool" where
  "hasUserVoted s p_id p_user = hasVoted s p_id p_user"

text \<open>
  The scanning loop of \<open>getActiveCTIs\<close>,
  \<open>for (uint256 i = ctiCounter; i > 0 && count < _limit; i--)\<close>. Its variables are the
  fixed-size memory array \<open>activeCTIs\<close>, \<open>count\<close> and \<open>currentOffset\<close>; a write past the
  end of the array panics with code 50.
\<close>

record scan =
  activeCTIs :: "uint256 list"
  count :: uint256
  currentOffset :: uint256

definition scan_body :: "state \<Rightarrow> uint256 \<Rightarrow> uint256 \<Rightarrow> scan \<Rightarrow> error + scan" where
  "scan_body s p_offset i v =
     (if isActive (ctiRecords s i) then
        (case (if currentOffset v \<ge> p_offset then
                 (if \<not> unat (count v) < length (activeCTIs v) then Inl (Panic 50)
                  else case checked_inc (count v) of
                         Inl e \<Rightarrow> Inl e
                       | Inr c \<Rightarrow>
                           Inr (v\<lparr>activeCTIs := (activeCTIs v)[unat (count v) := i],
                                  count := c\<rparr>))
               else Inr v) of
           Inl e \<Rightarrow> Inl e
         | Inr v1 \<Rightarrow>
             (case checked_inc (currentOffset v1) of
                Inl e \<Rightarrow> Inl e
              | Inr off \<Rightarrow> Inr (v1\<lparr>currentOffset := off\<rparr>)))
      else Inr v)"

function scan_loop :: "state \<Rightarrow> uint256 \<Rightarrow> uint256 \<Rightarrow> uint256 \<Rightarrow> scan \<Rightarrow> error + scan" where
  "scan_loop s p_limit p_offset i v =
     (if i > 0 \<and> count v < p_limit then
        (case scan_body s p_offset i v of
           Inl e \<Rightarrow> Inl e
         | Inr v' \<Rightarrow> scan_loop s p_limit p_offset (i - 1) v')
      else Inr v)"
  by pat_completeness auto
termination
  by (relation "measure (\<lambda>(s, p_limit, p_offset, i, v). unat i)")
     (auto simp: unat_minus_one word_neq_0_conv [symmetric] unat_gt_0 [symmetric])

text \<open>
  The second loop, \<open>for (uint256 i = 0; i < count; i++)\<close>, copies \<open>activeCTIs\<close> cell by
  cell into \<open>result\<close>, a fresh array of length \<open>count\<close>; a read or a write past the end
  of an array panics with code 50.
\<close>

function copy_loop :: "scan \<Rightarrow> uint256 \<Rightarrow> uint256 list \<Rightarrow> error + uint256 list" where
  "copy_loop v i result =
     (if i < count v then
        (if \<not> (unat i < length result \<and> unat i < length (activeCTIs v)) then Inl (Panic 50)
         else case checked_inc i of
                Inl e \<Rightarrow> Inl e
              | Inr i' \<Rightarrow> copy_loop v i' (result[unat i := activeCTIs v ! unat i]))
      else Inr result)"
  by pat_completeness auto
termination
proof (relation "measure (\<lambda>(v, i, result). unat (count v) - unat i)")
  show "wf (measure (\<lambda>(v, i, result). unat (count v) - unat i))"
    by simp
next
  fix v :: scan and i i' :: uint256 and result :: "uint256 list"
  assume lt: "i < count v" and inc: "checked_inc i = Inr i'"
  from inc have "i \<noteq> - 1" and "i' = i + 1"
    by (auto simp: checked_inc_def split: if_splits)
  then have "unat i' = Suc (unat i)"
    by (metis add.commute add_eq_0_iff2 unatSuc)
  moreover from lt have "unat i < unat (count v)"
    by (simp add: word_less_nat_alt)
  ultimately show "((v, i', result[unat i := activeCTIs v ! unat i]), (v, i, result))
      \<in> measure (\<lambda>(v, i, result). unat (count v) - unat i)"
    by simp
qed

definition getActiveCTIs :: "state \<Rightarrow> uint256 \<Rightarrow> uint256 \<Rightarrow> error + uint256 list" where
  "getActiveCTIs s p_limit p_offset =
     (if \<not> (p_limit > 0 \<and> p_limit \<le> 100) then Inl (Error ''Invalid limit'')
      else case scan_loop s p_limit p_offset (ctiCounter s)
                  \<lparr>activeCTIs = replicate (unat p_limit) 0, count = 0, currentOffset = 0\<rparr> of
             Inl e \<Rightarrow> Inl e
           | Inr v \<Rightarrow> copy_loop v 0 (replicate (unat (count v)) 0))"

text \<open>
  The loop of \<open>getActiveCTICount\<close>, \<open>for (uint256 i = 1; i <= ctiCounter; i++)\<close>.
\<close>

function count_loop :: "state \<Rightarrow> uint256 \<Rightarrow> uint256 \<Rightarrow> error + uint256" where
  "count_loop s i n =
     (if i \<le> ctiCounter s then
        (case (if isActive (ctiRecords s i) then checked_inc n else Inr n) of
           Inl e \<Rightarrow> Inl e
         | Inr n' \<Rightarrow>
             (case checked_inc i of
                Inl e \<Rightarrow> Inl e
              | Inr i' \<Rightarrow> count_loop s i' n'))
      else Inr n)"
  by pat_completeness auto
termination
proof (relation "measure (\<lambda>(s, i, n). Suc (unat (ctiCounter s)) - unat i)")
  show "wf (measure (\<lambda>(s, i, n). Suc (unat (ctiCounter s)) - unat i))"
    by simp
next
  fix s :: state and i n n' i' :: uint256
  assume le: "i \<le> ctiCounter s" and inc: "checked_inc i = Inr i'"
  from inc have "i \<noteq> - 1" and "i' = i + 1"
    by (auto simp: checked_inc_def split: if_splits)
  then have "unat i' = Suc (unat i)"
    by (metis add.commute add_eq_0_iff2 unatSuc)
  moreover from le have "unat i \<le> unat (ctiCounter s)"
    by (simp add: word_le_nat_alt)
  ultimately show "((s, i', n'), (s, i, n))
      \<in> measure (\<lambda>(s, i, n). Suc (unat (ctiCounter s)) - unat i)"
    by simp
qed

definition getActiveCTICount :: "state \<Rightarrow> error + uint256" where
  "getActiveCTICount s = count_loop s 1 0"

subsection \<open>Transactions\<close>

text \<open>
  A call to one of the contract's functions, with \<open>msg.sender\<close> and \<open>block.timestamp\<close>
  where the function reads them, and the data a successful call returns. \<open>submitCTI\<close>
  and \<open>voteCTI\<close> return nothing.
\<close>

datatype call =
    SubmitCTI address uint256 string string string
  | VoteCTI address uint256 bool
  | GetCTI uint256
  | GetActiveCTIs uint256 uint256
  | GetCTIScore uint256
  | HasUserVoted uint256 address
  | GetActiveCTICount

datatype returndata =
    Void
  | RetCTI CTI
  | RetIds "uint256 list"
  | RetInt int256
  | RetBool bool
  | RetUint uint256

text \<open>
  One transaction: a reverted call leaves the state as it was and emits nothing; a view
  function never changes the state.
\<close>

fun exec :: "call \<Rightarrow> state \<Rightarrow> state \<times> (error + returndata)" where
  "exec (SubmitCTI sender now p_ipfsHash p_category p_title) s =
     (case submitCTI sender now p_ipfsHash p_category p_title s of
        Inl e \<Rightarrow> (s, Inl e)
      | Inr s' \<Rightarrow> (s', Inr Void))"
| "exec (VoteCTI sender p_id p_isUpvote) s =
     (case voteCTI sender p_id p_isUpvote s of
        Inl e \<Rightarrow> (s, Inl e)
      | Inr s' \<Rightarrow> (s', Inr Void))"
| "exec (GetCTI p_id) s = (s, map_sum (\<lambda>e. e) RetCTI (getCTI s p_id))"
| "exec (GetActiveCTIs p_limit p_offset) s =
     (s, map_sum (\<lambda>e. e) RetIds (getActiveCTIs s p_limit p_offset))"
| "exec (GetCTIScore p_id) s = (s, map_sum (\<lambda>e. e) RetInt (getCTIScore s p_id))"
| "exec (HasUserVoted p_id p_user) s = (s, Inr (RetBool (hasUserVoted s p_id p_user)))"
| "exec GetActiveCTICount s = (s, map_sum (\<lambda>e. e) RetUint (getActiveCTICount s))"

text \<open>The state after a sequence of transactions, applied one after the other.\<close>

fun run :: "call list \<Rightarrow> state \<Rightarrow> state" where
  "run [] s = s"
| "run (c # cs) s = run cs (fst (exec c s))"

text \<open>The number of \<open>submitCTI\<close> calls of a sequence that do not revert.\<close>

fun is_submit :: "call \<Rightarrow> bool" where
  "is_submit (SubmitCTI sender now p_ipfsHash p_category p_title) = True"
| "is_submit _ = False"

fun succeeded :: "error + 'a \<Rightarrow> bool" where
  "succeeded (Inl e) = False"
| "succeeded (Inr x) = True"

fun submissions :: "call list \<Rightarrow> state \<Rightarrow> nat" where
  "submissions [] s = 0"
| "submissions (c # cs) s =
     (if is_submit c \<and> succeeded (snd (exec c s)) then 1 else 0) + submissions cs (fst (exec c s))"

subsection \<open>The specification's vocabulary\<close>

text \<open>
  The specification names four kinds of failure. A revert of the contract belongs to a
  kind by its message: the three empty-field messages of \<open>submitCTI\<close> and the limit
  message of \<open>getActiveCTIs\<close> are \<open>InvalidArgument\<close>, the two messages of \<open>validCTI\<close>
  are \<open>NotFound\<close>. A panic belongs to none.
\<close>

datatype failure = InvalidArgument | NotFound | AlreadyVoted | SelfVoteForbidden

fun failure_of :: "error \<Rightarrow> failure option" where
  "failure_of (Error m) =
     (if m = ''IPFS hash cannot be empty'' \<or> m = ''Category cannot be empty''
         \<or> m = ''Title cannot be empty'' \<or> m = ''Invalid limit'' then Some InvalidArgument
      else if m = ''CTI does not exist'' \<or> m = ''CTI is not active'' then Some NotFound
      else if m = ''Already voted on this CTI'' then Some AlreadyVoted
      else if m = ''Cannot vote on own submission'' then Some SelfVoteForbidden
      else None)"
| "failure_of (Panic c) = None"

definition fails_with :: "error + 'a \<Rightarrow> failure \<Rightarrow> bool" where
  "fails_with r k = (case r of Inl e \<Rightarrow> failure_of e = Some k | Inr _ \<Rightarrow> False)"

text \<open>
  The ids \<open>n, n - 1, \<dots>, 1\<close>, and the specification's sequence of all active record ids
  in descending id order.
\<close>

fun ids_desc :: "nat \<Rightarrow> uint256 list" where
  "ids_desc 0 = []"
| "ids_desc (Suc n) = of_nat (Suc n) # ids_desc n"

definition activeIds :: "state \<Rightarrow> uint256 list" where
  "activeIds s = filter (\<lambda>i. isActive (ctiRecords s i)) (ids_desc (unat (ctiCounter s)))"

text \<open>
  The first \<open>n\<close> pages of size \<open>p_limit\<close>, at offsets \<open>0, p_limit, 2 * p_limit, \<dots>\<close>,
  one after the other.
\<close>

fun pages :: "state \<Rightarrow> uint256 \<Rightarrow> nat \<Rightarrow> error + uint256 list" where
  "pages s p_limit 0 = Inr []"
| "pages s p_limit (Suc n) =
     (case pages s p_limit n of
        Inl e \<Rightarrow> Inl e
      | Inr xs \<Rightarrow>
          (case getActiveCTIs s p_limit (of_nat n * p_limit) of
             Inl e \<Rightarrow> Inl e
           | Inr ys \<Rightarrow> Inr (xs @ ys)))"

subsection \<open>Invariants of the registry\<close>

text \<open>
  Properties of the storage that hold after deployment and that every transaction
  keeps. Ids from 1 to \<open>ctiCounter\<close> hold an active record that carries its own id, and
  every other slot is untouched; a vote is recorded only for an assigned id and never for
  its submitter; the two tallies of a record add up to the number of its voters; no
  address has submitted more records than there are; no deactivation was ever emitted.
\<close>

definition inv_records :: "state \<Rightarrow> bool" where
  "inv_records s \<longleftrightarrow>
     (\<forall>i. 0 < i \<and> i \<le> ctiCounter s \<longrightarrow>
        isActive (ctiRecords s i) \<and> cti_id (ctiRecords s i) = i)
     \<and> (\<forall>i. \<not> (0 < i \<and> i \<le> ctiCounter s) \<longrightarrow> ctiRecords s i = zero_CTI)"

definition inv_votes :: "state \<Rightarrow> bool" where
  "inv_votes s \<longleftrightarrow>
     (\<forall>i a. hasVoted s i a \<longrightarrow>
        0 < i \<and> i \<le> ctiCounter s \<and> submitter (ctiRecords s i) \<noteq> a)"

definition inv_tally :: "state \<Rightarrow> bool" where
  "inv_tally s \<longleftrightarrow>
     (\<forall>i. unat (upvotes (ctiRecords s i)) + unat (downvotes (ctiRecords s i))
        = card {a. hasVoted s i a})"

definition inv_submissions :: "state \<Rightarrow> bool" where
  "inv_submissions s \<longleftrightarrow> (\<forall>a. unat (userSubmissions s a) \<le> unat (ctiCounter s))"

definition inv_events :: "state \<Rightarrow> bool" where
  "inv_events s \<longleftrightarrow> (\<forall>i. CTIDeactivated i \<notin> set (emitted s))"

definition registry_inv :: "state \<Rightarrow> bool" where
  "registry_inv s \<longleftrightarrow>
     inv_records s \<and> inv_votes s \<and> inv_tally s \<and> inv_submissions s \<and> inv_events s"

section \<open>Arguments are checked before anything is written\<close>

lemma failure_of_simps [simp]:
  "failure_of (Error ''IPFS hash cannot be empty'') = Some InvalidArgument"
  "failure_of (Error ''Category cannot be empty'') = Some InvalidArgument"
  "failure_of (Error ''Title cannot be empty'') = Some InvalidArgument"
  "failure_of (Error ''Invalid limit'') = Some InvalidArgument"
  "failure_of (Error ''CTI does not exist'') = Some NotFound"
  "failure_of (Error ''CTI is not active'') = Some NotFound"
  "failure_of (Error ''Already voted on this CTI'') = Some AlreadyVoted"
  "failure_of (Error ''Cannot vote on own submission'') = Some SelfVoteForbidden"
  by simp_all

declare failure_of.simps [simp del]

lemma fails_with_Inl [simp]: "fails_with (Inl e) k \<longleftrightarrow> failure_of e = Some k"
  by (simp add: fails_with_def)

lemma fails_with_Inr [simp]: "\<not> fails_with (Inr x) k"
  by (simp add: fails_with_def)

text \<open>C9: a limit outside \<open>[1, 100]\<close>, whatever the offset and the state, makes
  \<open>getActiveCTIs\<close> revert with \<open>Invalid limit\<close>, an \<open>InvalidArgument\<close> failure, so that no
  list is returned.\<close>

theorem getActiveCTIs_invalid_limit:
  "\<not> (1 \<le> p_limit \<and> p_limit \<le> 100) \<Longrightarrow>
     getActiveCTIs s p_limit p_offset = Inl (Error ''Invalid limit'')
     \<and> fails_with (getActiveCTIs s p_limit p_offset) InvalidArgument
     \<and> exec (GetActiveCTIs p_limit p_offset) s = (s, Inl (Error ''Invalid limit''))"
  by (auto simp: getActiveCTIs_def word_less_nat_alt word_le_nat_alt)

theorem getActiveCTIs_invalid_limit_witness:
  "fails_with (getActiveCTIs init_state 0 0) InvalidArgument
   \<and> fails_with (getActiveCTIs init_state 101 0) InvalidArgument"
  using getActiveCTIs_invalid_limit [of 0 init_state 0]
    getActiveCTIs_invalid_limit [of 101 init_state 0]
  by simp

text \<open>C4: a \<open>submitCTI\<close> call with an empty content reference, category or title fails
  with \<open>InvalidArgument\<close>, and the transaction leaves the whole state as it was: counter,
  records, submission counters and events.\<close>

theorem submitCTI_empty_field:
  "p_ipfsHash = [] \<or> p_category = [] \<or> p_title = [] \<Longrightarrow>
     fails_with (submitCTI sender now p_ipfsHash p_category p_title s) InvalidArgument
     \<and> fst (exec (SubmitCTI sender now p_ipfsHash p_category p_title) s) = s
     \<and> fails_with (snd (exec (SubmitCTI sender now p_ipfsHash p_category p_title) s))
          InvalidArgument"
  by (auto simp: submitCTI_def)

theorem submitCTI_empty_field_witness:
  "fst (exec (SubmitCTI 7 0 [] ''Malware'' ''Title'') init_state) = init_state
   \<and> fails_with (snd (exec (SubmitCTI 7 0 [] ''Malware'' ''Title'') init_state))
        InvalidArgument"
  using submitCTI_empty_field [of "[]" "''Malware''" "''Title''" 7 0 init_state]
  by simp

section \<open>The order of the checks of a vote\<close>

text \<open>C3: \<open>voteCTI\<close> checks existence, then activity, then a previous vote of the sender,
  then a vote of the submitter, and the first check that fails decides the revert,
  whatever the later ones would say. The first two failures are both \<open>NotFound\<close>; when
  all four checks pass, none of the four failures is raised.\<close>

theorem voteCTI_check_order:
  "(\<not> (0 < p_id \<and> p_id \<le> ctiCounter s) \<longrightarrow>
      voteCTI sender p_id p_isUpvote s = Inl (Error ''CTI does not exist''))
   \<and> (0 < p_id \<and> p_id \<le> ctiCounter s \<and> \<not> isActive (ctiRecords s p_id) \<longrightarrow>
      voteCTI sender p_id p_isUpvote s = Inl (Error ''CTI is not active''))
   \<and> (0 < p_id \<and> p_id \<le> ctiCounter s \<and> isActive (ctiRecords s p_id)
        \<and> hasVoted s p_id sender \<longrightarrow>
      voteCTI sender p_id p_isUpvote s = Inl (Error ''Already voted on this CTI''))
   \<and> (0 < p_id \<and> p_id \<le> ctiCounter s \<and> isActive (ctiRecords s p_id)
        \<and> \<not> hasVoted s p_id sender \<and> submitter (ctiRecords s p_id) = sender \<longrightarrow>
      voteCTI sender p_id p_isUpvote s = Inl (Error ''Cannot vote on own submission''))
   \<and> (0 < p_id \<and> p_id \<le> ctiCounter s \<and> isActive (ctiRecords s p_id)
        \<and> \<not> hasVoted s p_id sender \<and> submitter (ctiRecords s p_id) \<noteq> sender \<longrightarrow>
      (\<forall>k. \<not> fails_with (voteCTI sender p_id p_isUpvote s) k))
   \<and> failure_of (Error ''CTI does not exist'') = Some NotFound
   \<and> failure_of (Error ''CTI is not active'') = Some NotFound
   \<and> failure_of (Error ''Already voted on this CTI'') = Some AlreadyVoted
   \<and> failure_of (Error ''Cannot vote on own submission'') = Some SelfVoteForbidden"
  by (auto simp: voteCTI_def validCTI_def hasNotVoted_def checked_inc_def failure_of.simps
      Let_def split: sum.splits)

theorem voteCTI_check_order_witness:
  "voteCTI 8 999 True
      (fst (exec (SubmitCTI 7 0 ''QmTestHash'' ''Malware'' ''Test Threat'') init_state))
     = Inl (Error ''CTI does not exist'')
   \<and> voteCTI 0 1 True (init_state\<lparr>ctiCounter := 1, hasVoted := \<lambda>_ _. True\<rparr>)
     = Inl (Error ''CTI is not active'')
   \<and> voteCTI 0 1 True (init_state\<lparr>ctiCounter := 1,
        ctiRecords := \<lambda>_. zero_CTI\<lparr>isActive := True\<rparr>, hasVoted := \<lambda>_ _. True\<rparr>)
     = Inl (Error ''Already voted on this CTI'')
   \<and> voteCTI 7 1 True
      (fst (exec (SubmitCTI 7 0 ''QmTestHash'' ''Malware'' ''Test Threat'') init_state))
     = Inl (Error ''Cannot vote on own submission'')
   \<and> \<not> fails_with (voteCTI 8 1 True
        (fst (exec (SubmitCTI 7 0 ''QmTestHash'' ''Malware'' ''Test Threat'') init_state)))
        SelfVoteForbidden"
  using
    voteCTI_check_order [of 999
      "fst (exec (SubmitCTI 7 0 ''QmTestHash'' ''Malware'' ''Test Threat'') init_state)" 8 True]
    voteCTI_check_order [of 1 "init_state\<lparr>ctiCounter := 1, hasVoted := \<lambda>_ _. True\<rparr>" 0 True]
    voteCTI_check_order [of 1 "init_state\<lparr>ctiCounter := 1,
        ctiRecords := \<lambda>_. zero_CTI\<lparr>isActive := True\<rparr>, hasVoted := \<lambda>_ _. True\<rparr>" 0 True]
    voteCTI_check_order [of 1
      "fst (exec (SubmitCTI 7 0 ''QmTestHash'' ''Malware'' ''Test Threat'') init_state)" 7 True]
    voteCTI_check_order [of 1
      "fst (exec (SubmitCTI 7 0 ''QmTestHash'' ''Malware'' ''Test Threat'') init_state)" 8 True]
  by (simp add: init_state_def zero_CTI_def submitCTI_def checked_inc_def word_le_nat_alt)

section \<open>What a transaction changes\<close>

lemma unat_inc: "(x :: 'a::len word) \<noteq> - 1 \<Longrightarrow> unat (x + 1) = Suc (unat x)"
  by (metis add.commute add_eq_0_iff2 unatSuc)

lemma inc_pos: "(x :: 'a::len word) \<noteq> - 1 \<Longrightarrow> 0 < x + 1"
  by (simp add: word_less_nat_alt unat_inc)

lemma le_inc_iff: "(x :: 'a::len word) \<noteq> - 1 \<Longrightarrow> i \<le> x + 1 \<longleftrightarrow> i \<le> x \<or> i = x + 1"
  by (auto simp: word_le_nat_alt unat_inc word_unat_eq_iff)

lemma inc_not_le: "(x :: 'a::len word) \<noteq> - 1 \<Longrightarrow> \<not> x + 1 \<le> x"
  by (simp add: word_le_nat_alt unat_inc)

lemma submitCTI_Inr:
  assumes "submitCTI sender now p_ipfsHash p_category p_title s = Inr s'"
  shows "p_ipfsHash \<noteq> [] \<and> p_category \<noteq> [] \<and> p_title \<noteq> []
    \<and> ctiCounter s \<noteq> - 1 \<and> userSubmissions s sender \<noteq> - 1
    \<and> s' = s\<lparr>ctiCounter := ctiCounter s + 1,
           ctiRecords := (ctiRecords s)(ctiCounter s + 1 :=
             \<lparr>cti_id = ctiCounter s + 1, submitter = sender, ipfsHash = p_ipfsHash,
              category = p_category, title = p_title, timestamp = now,
              upvotes = 0, downvotes = 0, isActive = True\<rparr>),
           userSubmissions := (userSubmissions s)(sender := userSubmissions s sender + 1),
           emitted := emitted s @
             [CTISubmitted (ctiCounter s + 1) sender p_ipfsHash p_category p_title]\<rparr>"
  using assms
  by (auto simp: submitCTI_def checked_inc_def Let_def split: if_splits sum.splits)

lemma voteCTI_Inr:
  assumes "voteCTI sender p_id p_isUpvote s = Inr s'"
  shows "0 < p_id \<and> p_id \<le> ctiCounter s \<and> isActive (ctiRecords s p_id)
    \<and> \<not> hasVoted s p_id sender \<and> submitter (ctiRecords s p_id) \<noteq> sender
    \<and> (if p_isUpvote then upvotes (ctiRecords s p_id) \<noteq> - 1
        else downvotes (ctiRecords s p_id) \<noteq> - 1)
    \<and> s' = s\<lparr>hasVoted := (hasVoted s)(p_id := (hasVoted s p_id)(sender := True)),
           ctiRecords := (ctiRecords s)(p_id :=
             (if p_isUpvote
              then (ctiRecords s p_id)\<lparr>upvotes := upvotes (ctiRecords s p_id) + 1\<rparr>
              else (ctiRecords s p_id)\<lparr>downvotes := downvotes (ctiRecords s p_id) + 1\<rparr>)),
           emitted := emitted s @ [CTIVoted p_id sender p_isUpvote]\<rparr>"
  using assms
  by (auto simp: voteCTI_def validCTI_def hasNotVoted_def checked_inc_def Let_def
      split: if_splits sum.splits)

lemma exec_cases [case_names same submit vote]:
  obtains "fst (exec c s) = s"
  | sender now p_ipfsHash p_category p_title where
      "c = SubmitCTI sender now p_ipfsHash p_category p_title"
      "submitCTI sender now p_ipfsHash p_category p_title s = Inr (fst (exec c s))"
      "snd (exec c s) = Inr Void"
  | sender p_id p_isUpvote where
      "c = VoteCTI sender p_id p_isUpvote"
      "voteCTI sender p_id p_isUpvote s = Inr (fst (exec c s))"
      "snd (exec c s) = Inr Void"
proof (cases c)
  case (SubmitCTI sender now p_ipfsHash p_category p_title)
  then show ?thesis
    using that(1,2) by (cases "submitCTI sender now p_ipfsHash p_category p_title s") auto
next
  case (VoteCTI sender p_id p_isUpvote)
  then show ?thesis
    using that(1,3) by (cases "voteCTI sender p_id p_isUpvote s") auto
qed (use that(1) in auto)

section \<open>Invariants\<close>

lemma inv_init: "registry_inv init_state"
  by (auto simp: registry_inv_def inv_records_def inv_votes_def inv_tally_def
      inv_submissions_def inv_events_def init_state_def zero_CTI_def)

lemma inv_records_exec:
  assumes "inv_records s"
  shows "inv_records (fst (exec c s))"
proof (cases c s rule: exec_cases)
  case same
  with assms show ?thesis by simp
next
  case (submit sender now p_ipfsHash p_category p_title)
  from submitCTI_Inr [OF submit(2)] assms show ?thesis
    by (auto simp: inv_records_def le_inc_iff inc_pos)
next
  case (vote sender p_id p_isUpvote)
  from voteCTI_Inr [OF vote(2)] assms show ?thesis
    by (auto simp: inv_records_def)
qed

lemma inv_votes_exec:
  assumes "inv_votes s"
  shows "inv_votes (fst (exec c s))"
proof (cases c s rule: exec_cases)
  case same
  with assms show ?thesis by simp
next
  case (submit sender now p_ipfsHash p_category p_title)
  note sub = submitCTI_Inr [OF submit(2)]
  then have nm: "ctiCounter s \<noteq> - 1" by simp
  have fresh: "\<not> hasVoted s (ctiCounter s + 1) a" for a
    using assms inc_not_le [OF nm] unfolding inv_votes_def by blast
  from sub assms fresh show ?thesis
    by (auto simp: inv_votes_def le_inc_iff inc_pos)
next
  case (vote sender p_id p_isUpvote)
  from voteCTI_Inr [OF vote(2)] assms show ?thesis
    by (auto simp: inv_votes_def)
qed

lemma inv_submissions_exec:
  assumes "inv_submissions s"
  shows "inv_submissions (fst (exec c s))"
proof (cases c s rule: exec_cases)
  case same
  with assms show ?thesis by simp
next
  case (submit sender now p_ipfsHash p_category p_title)
  from submitCTI_Inr [OF submit(2)] assms show ?thesis
    by (auto simp: inv_submissions_def unat_inc le_SucI)
next
  case (vote sender p_id p_isUpvote)
  from voteCTI_Inr [OF vote(2)] assms show ?thesis
    by (auto simp: inv_submissions_def)
qed

lemma inv_events_exec:
  assumes "inv_events s"
  shows "inv_events (fst (exec c s))"
proof (cases c s rule: exec_cases)
  case same
  with assms show ?thesis by simp
next
  case (submit sender now p_ipfsHash p_category p_title)
  from submitCTI_Inr [OF submit(2)] assms show ?thesis
    by (auto simp: inv_events_def)
next
  case (vote sender p_id p_isUpvote)
  from voteCTI_Inr [OF vote(2)] assms show ?thesis
    by (auto simp: inv_events_def)
qed

lemma inv_tally_exec:
  assumes "inv_tally s" and "inv_votes s"
  shows "inv_tally (fst (exec c s))"
proof (cases c s rule: exec_cases)
  case same
  with assms show ?thesis by simp
next
  case (submit sender now p_ipfsHash p_category p_title)
  note sub = submitCTI_Inr [OF submit(2)]
  then have nm: "ctiCounter s \<noteq> - 1" by simp
  have fresh: "{a. hasVoted s (ctiCounter s + 1) a} = {}"
    using assms(2) inc_not_le [OF nm] unfolding inv_votes_def by blast
  from sub assms(1) fresh show ?thesis
    by (auto simp: inv_tally_def)
next
  case (vote sender p_id p_isUpvote)
  note v = voteCTI_Inr [OF vote(2)]
  have "Collect ((hasVoted s p_id)(sender := True)) = insert sender (Collect (hasVoted s p_id))"
    by auto
  moreover have "sender \<notin> Collect (hasVoted s p_id)"
    using v by simp
  ultimately have card: "card (Collect ((hasVoted s p_id)(sender := True)))
      = Suc (card (Collect (hasVoted s p_id)))"
    by simp
  have old: "unat (upvotes (ctiRecords s p_id)) + unat (downvotes (ctiRecords s p_id))
      = card {a. hasVoted s p_id a}"
    using assms(1) by (simp add: inv_tally_def)
  show ?thesis
  proof (cases p_isUpvote)
    case True
    with v assms(1) card old show ?thesis
      by (auto simp: inv_tally_def unat_inc)
  next
    case False
    with v assms(1) card old show ?thesis
      by (auto simp: inv_tally_def unat_inc)
  qed
qed

lemma registry_inv_exec: "registry_inv s \<Longrightarrow> registry_inv (fst (exec c s))"
  by (simp add: registry_inv_def inv_records_exec inv_votes_exec inv_tally_exec
      inv_submissions_exec inv_events_exec)

lemma registry_inv_run: "registry_inv s \<Longrightarrow> registry_inv (run cs s)"
  by (induction cs arbitrary: s) (simp_all add: registry_inv_exec)

lemma registry_inv_reachable: "registry_inv (run cs init_state)"
  by (simp add: registry_inv_run inv_init)

section \<open>Listing the active records\<close>

lemma unat_dec: "(i :: 'a::len word) \<noteq> 0 \<Longrightarrow> unat (i - 1) = unat i - 1"
  by (simp add: unat_minus_one)

lemma unat_max: "unat (- 1 :: 'a::len word) = 2 ^ LENGTH('a) - 1"
  by (simp add: unsigned_minus_1_eq_mask mask_eq_exp_minus_1)

lemma ids_desc_unat:
  assumes "(i :: uint256) \<noteq> 0"
  shows "ids_desc (unat i) = i # ids_desc (unat (i - 1))"
proof -
  from assms have "0 < unat i" by (simp add: unat_gt_0)
  then have "unat i = Suc (unat (i - 1))"
    using assms by (simp add: unat_minus_one)
  then have "ids_desc (unat i) = of_nat (unat i) # ids_desc (unat (i - 1))"
    by (metis ids_desc.simps(2))
  then show ?thesis by simp
qed

lemma scan_body_Inr:
  assumes "unat (count v) < length (activeCTIs v)"
    and "currentOffset v \<noteq> - 1" and "count v \<noteq> - 1"
  shows "scan_body s p_offset i v =
     Inr (if isActive (ctiRecords s i) then
            (if p_offset \<le> currentOffset v
             then v\<lparr>activeCTIs := (activeCTIs v)[unat (count v) := i],
                    count := count v + 1, currentOffset := currentOffset v + 1\<rparr>
             else v\<lparr>currentOffset := currentOffset v + 1\<rparr>)
          else v)"
  using assms by (simp add: scan_body_def checked_inc_def)

lemma scan_loop_slice:
  assumes "length (activeCTIs v) = unat p_limit"
    and "unat (count v) = unat (currentOffset v) - unat p_offset"
    and "unat (count v) \<le> unat p_limit"
    and "unat (currentOffset v) + unat i < 2 ^ 256"
  shows "\<exists>v'. scan_loop s p_limit p_offset i v = Inr v'
     \<and> length (activeCTIs v') = unat p_limit \<and> unat (count v') \<le> unat p_limit
     \<and> take (unat (count v')) (activeCTIs v') =
         take (unat (count v)) (activeCTIs v)
         @ take (unat p_limit - unat (count v))
             (drop (unat p_offset - unat (currentOffset v))
                (filter (\<lambda>j. isActive (ctiRecords s j)) (ids_desc (unat i))))"
  using assms
proof (induction s p_limit p_offset i v rule: scan_loop.induct)
  case (1 s p_limit p_offset i v)
  let ?act = "\<lambda>j. isActive (ctiRecords s j)"
  show ?case
  proof (cases "i > 0 \<and> count v < p_limit")
    case False
    then have stop: "scan_loop s p_limit p_offset i v = Inr v"
      by (subst scan_loop.simps) auto
    from False have "i = 0 \<or> unat p_limit \<le> unat (count v)"
      by (auto simp: word_less_nat_alt unat_eq_0)
    then have "take (unat p_limit - unat (count v))
             (drop (unat p_offset - unat (currentOffset v))
                (filter ?act (ids_desc (unat i)))) = []"
      by auto
    with stop "1.prems"(1,3) show ?thesis by simp
  next
    case True
    then have ipos: "i \<noteq> 0" and lt: "unat (count v) < unat p_limit"
      by (auto simp: word_less_nat_alt)
    have upos: "0 < unat i" using ipos by (simp add: unat_gt_0)
    have bound: "unat p_limit < 2 ^ 256" using unsigned_less [of p_limit] by simp
    have c_nm: "count v \<noteq> - 1"
      using True by (metis word_order.extremum_strict)
    have o_nm: "currentOffset v \<noteq> - 1"
    proof
      assume "currentOffset v = - 1"
      then have "unat (currentOffset v) = 2 ^ 256 - 1"
        by (simp add: unat_max)
      with "1.prems"(4) upos show False by simp
    qed
    define v' where "v' = (if ?act i then
            (if p_offset \<le> currentOffset v
             then v\<lparr>activeCTIs := (activeCTIs v)[unat (count v) := i],
                    count := count v + 1, currentOffset := currentOffset v + 1\<rparr>
             else v\<lparr>currentOffset := currentOffset v + 1\<rparr>)
          else v)"
    have body: "scan_body s p_offset i v = Inr v'"
      unfolding v'_def using lt "1.prems"(1) c_nm o_nm by (intro scan_body_Inr) simp_all
    have unfold: "scan_loop s p_limit p_offset i v = scan_loop s p_limit p_offset (i - 1) v'"
      using True body by (subst scan_loop.simps) simp
    have ids: "ids_desc (unat i) = i # ids_desc (unat (i - 1))"
      using ipos by (rule ids_desc_unat)
    have dec: "unat (i - 1) = unat i - 1"
      using ipos by (rule unat_dec)
    have len': "length (activeCTIs v') = unat p_limit"
      using "1.prems"(1) by (simp add: v'_def)
    have rel': "unat (count v') = unat (currentOffset v') - unat p_offset"
      using "1.prems"(2) c_nm o_nm
      by (auto simp: v'_def unat_inc word_le_nat_alt)
    have le': "unat (count v') \<le> unat p_limit"
      using lt c_nm by (auto simp: v'_def unat_inc)
    have ov': "unat (currentOffset v') + unat (i - 1) < 2 ^ 256"
      using "1.prems"(4) upos o_nm by (auto simp: v'_def unat_inc dec)
    from "1.IH" [OF True body len' rel' le' ov']
    obtain w where w: "scan_loop s p_limit p_offset (i - 1) v' = Inr w"
      and shape: "length (activeCTIs w) = unat p_limit" "unat (count w) \<le> unat p_limit"
      and res: "take (unat (count w)) (activeCTIs w) =
         take (unat (count v')) (activeCTIs v')
         @ take (unat p_limit - unat (count v'))
             (drop (unat p_offset - unat (currentOffset v'))
                (filter ?act (ids_desc (unat (i - 1)))))"
      by blast
    have "take (unat (count v')) (activeCTIs v')
         @ take (unat p_limit - unat (count v'))
             (drop (unat p_offset - unat (currentOffset v'))
                (filter ?act (ids_desc (unat (i - 1)))))
       = take (unat (count v)) (activeCTIs v)
         @ take (unat p_limit - unat (count v))
             (drop (unat p_offset - unat (currentOffset v))
                (filter ?act (ids_desc (unat i))))"
    proof (cases "?act i")
      case False
      then show ?thesis by (simp add: v'_def ids)
    next
      case act: True
      show ?thesis
      proof (cases "p_offset \<le> currentOffset v")
        case True
        then have z: "unat p_offset - unat (currentOffset v) = 0"
          "unat p_offset - unat (currentOffset v + 1) = 0"
          using o_nm by (auto simp: word_le_nat_alt unat_inc)
        have "take (Suc (unat (count v))) ((activeCTIs v)[unat (count v) := i])
            = take (unat (count v)) (activeCTIs v) @ [i]"
          using lt "1.prems"(1) by (simp add: take_Suc_conv_app_nth)
        moreover have "take (unat p_limit - unat (count v)) (i # xs)
            = i # take (unat p_limit - Suc (unat (count v))) xs" for xs
        proof -
          from lt have "unat p_limit - unat (count v)
              = Suc (unat p_limit - Suc (unat (count v)))"
            by arith
          then show ?thesis by simp
        qed
        ultimately show ?thesis
          using act True z c_nm by (simp add: v'_def ids unat_inc)
      next
        case False
        then have "unat p_offset - unat (currentOffset v)
            = Suc (unat p_offset - unat (currentOffset v + 1))"
          using o_nm by (auto simp: word_le_nat_alt unat_inc)
        then show ?thesis
          using act False by (simp add: v'_def ids)
      qed
    qed
    with unfold w shape res show ?thesis by simp
  qed
qed

lemma copy_loop_prefix:
  assumes "unat (count v) \<le> length (activeCTIs v)"
    and "length result = unat (count v)"
    and "unat i \<le> unat (count v)"
    and "take (unat i) result = take (unat i) (activeCTIs v)"
  shows "copy_loop v i result = Inr (take (unat (count v)) (activeCTIs v))"
  using assms
proof (induction v i result rule: copy_loop.induct)
  case (1 v i result)
  show ?case
  proof (cases "i < count v")
    case False
    then have "unat i = unat (count v)"
      using "1.prems"(3) by (simp add: word_less_nat_alt)
    with "1.prems"(2,4) False show ?thesis
      by (subst copy_loop.simps) simp
  next
    case True
    then have lt: "unat i < unat (count v)"
      by (simp add: word_less_nat_alt)
    have i_nm: "i \<noteq> - 1"
      using True by (metis word_order.extremum_strict)
    have inc: "checked_inc i = Inr (i + 1)"
      using i_nm by (simp add: checked_inc_def)
    have ui: "unat (i + 1) = Suc (unat i)"
      using i_nm by (rule unat_inc)
    have inb: "unat i < length result \<and> unat i < length (activeCTIs v)"
      using lt "1.prems"(1,2) by simp
    let ?result = "result[unat i := activeCTIs v ! unat i]"
    have unfold: "copy_loop v i result = copy_loop v (i + 1) ?result"
      using True inb inc by (subst copy_loop.simps) simp
    have "take (Suc (unat i)) ?result = take (unat i) result @ [activeCTIs v ! unat i]"
      using inb by (simp add: take_Suc_conv_app_nth)
    also have "\<dots> = take (Suc (unat i)) (activeCTIs v)"
      using inb "1.prems"(4) by (simp add: take_Suc_conv_app_nth)
    finally have "take (unat (i + 1)) ?result = take (unat (i + 1)) (activeCTIs v)"
      by (simp only: ui)
    moreover have "length ?result = unat (count v)" "unat (i + 1) \<le> unat (count v)"
      using "1.prems"(2) lt ui by simp_all
    ultimately have "copy_loop v (i + 1) ?result = Inr (take (unat (count v)) (activeCTIs v))"
      using "1.IH" [OF True _ inc] inb "1.prems"(1) by simp
    with unfold show ?thesis by simp
  qed
qed

lemma length_ids_desc [simp]: "length (ids_desc n) = n"
  by (induction n) simp_all

lemma unat_of_nat_256: "n < 2 ^ 256 \<Longrightarrow> unat (of_nat n :: uint256) = n"
  by (simp add: unat_of_nat)

lemma set_ids_desc:
  "n < 2 ^ 256 \<Longrightarrow> set (ids_desc n) = {i. 0 < i \<and> unat i \<le> n}"
proof (induction n)
  case 0
  then show ?case by (auto simp: word_less_nat_alt)
next
  case (Suc n)
  then have IH: "set (ids_desc n) = {i. 0 < i \<and> unat i \<le> n}" by simp
  have u: "unat (of_nat (Suc n) :: uint256) = Suc n"
    using Suc.prems by (rule unat_of_nat_256)
  have "i = of_nat (Suc n) \<longleftrightarrow> unat i = Suc n" for i :: uint256
    using u by (simp add: word_unat_eq_iff)
  then show ?case
    using IH u by (auto simp: word_less_nat_alt le_Suc_eq)
qed

lemma sorted_ids_desc: "n < 2 ^ 256 \<Longrightarrow> sorted_wrt (\<lambda>a b. b < a) (ids_desc n)"
proof (induction n)
  case 0
  then show ?case by simp
next
  case (Suc n)
  have u: "unat (of_nat (Suc n) :: uint256) = Suc n"
    using Suc.prems by (rule unat_of_nat_256)
  from Suc show ?case
    using u by (auto simp: set_ids_desc word_less_nat_alt)
qed

lemma set_activeIds:
  "set (activeIds s) = {i. 0 < i \<and> i \<le> ctiCounter s \<and> isActive (ctiRecords s i)}"
proof -
  have "unat (ctiCounter s) < 2 ^ 256" using unsigned_less [of "ctiCounter s"] by simp
  then show ?thesis
    by (auto simp: activeIds_def set_ids_desc word_le_nat_alt)
qed

lemma sorted_activeIds: "sorted_wrt (\<lambda>a b. b < a) (activeIds s)"
proof -
  have "unat (ctiCounter s) < 2 ^ 256" using unsigned_less [of "ctiCounter s"] by simp
  then show ?thesis
    unfolding activeIds_def by (intro sorted_wrt_filter sorted_ids_desc)
qed

lemma distinct_ids_desc: "n < 2 ^ 256 \<Longrightarrow> distinct (ids_desc n)"
proof (induction n)
  case 0
  then show ?case by simp
next
  case (Suc n)
  have u: "unat (of_nat (Suc n) :: uint256) = Suc n"
    using Suc.prems by (rule unat_of_nat_256)
  from Suc show ?case
    using u by (auto simp: set_ids_desc)
qed

lemma distinct_activeIds: "distinct (activeIds s)"
proof -
  have "unat (ctiCounter s) < 2 ^ 256" using unsigned_less [of "ctiCounter s"] by simp
  then show ?thesis
    unfolding activeIds_def by (intro distinct_filter distinct_ids_desc)
qed

lemma length_activeIds: "length (activeIds s) \<le> unat (ctiCounter s)"
  unfolding activeIds_def by (metis length_filter_le length_ids_desc)

lemma getActiveCTIs_slice:
  assumes "1 \<le> p_limit" and "p_limit \<le> 100"
  shows "getActiveCTIs s p_limit p_offset
    = Inr (take (unat p_limit) (drop (unat p_offset) (activeIds s)))"
proof -
  let ?v = "\<lparr>activeCTIs = replicate (unat p_limit) 0, count = 0, currentOffset = 0\<rparr>"
  have "unat (ctiCounter s) < 2 ^ 256" using unsigned_less [of "ctiCounter s"] by simp
  then obtain v' where run: "scan_loop s p_limit p_offset (ctiCounter s) ?v = Inr v'"
    and shape: "length (activeCTIs v') = unat p_limit" "unat (count v') \<le> unat p_limit"
    and res: "take (unat (count v')) (activeCTIs v') =
       take (unat (count ?v)) (activeCTIs ?v)
       @ take (unat p_limit - unat (count ?v))
           (drop (unat p_offset - unat (currentOffset ?v))
              (filter (\<lambda>j. isActive (ctiRecords s j)) (ids_desc (unat (ctiCounter s)))))"
    using scan_loop_slice [of ?v p_limit p_offset "ctiCounter s" s] by auto
  have copy: "copy_loop v' 0 (replicate (unat (count v')) 0)
      = Inr (take (unat (count v')) (activeCTIs v'))"
    using shape by (intro copy_loop_prefix) simp_all
  from assms have "p_limit > 0 \<and> p_limit \<le> 100"
    by (auto simp: word_less_nat_alt word_le_nat_alt)
  with run res copy show ?thesis
    by (simp add: getActiveCTIs_def activeIds_def)
qed

lemma pages_prefix:
  assumes "1 \<le> p_limit" and "p_limit \<le> 100"
  shows "(n - 1) * unat p_limit < 2 ^ 256 \<Longrightarrow>
    pages s p_limit n = Inr (take (n * unat p_limit) (activeIds s))"
proof (induction n)
  case 0
  then show ?case by simp
next
  case (Suc n)
  then have nl: "n * unat p_limit < 2 ^ 256" by simp
  then have "(n - 1) * unat p_limit < 2 ^ 256"
    by (metis diff_le_self le_less_trans mult_le_mono1)
  then have IH: "pages s p_limit n = Inr (take (n * unat p_limit) (activeIds s))"
    by (rule Suc.IH)
  have "1 \<le> unat p_limit"
    using assms(1) by (simp add: word_le_nat_alt)
  then have "n \<le> n * unat p_limit" by simp
  from this nl have "n < 2 ^ 256" by (rule le_less_trans)
  then have "unat (of_nat n * p_limit) = n * unat p_limit"
    using nl by (simp add: unat_word_ariths unat_of_nat)
  then have "getActiveCTIs s p_limit (of_nat n * p_limit)
      = Inr (take (unat p_limit) (drop (n * unat p_limit) (activeIds s)))"
    using getActiveCTIs_slice [OF assms, of s "of_nat n * p_limit"] by simp
  moreover have "take (Suc n * unat p_limit) (activeIds s)
      = take (n * unat p_limit) (activeIds s)
        @ take (unat p_limit) (drop (n * unat p_limit) (activeIds s))"
    using take_add [of "n * unat p_limit" "unat p_limit" "activeIds s"]
    by (simp add: add.commute)
  ultimately show ?case
    using IH by simp
qed

lemma ids_desc_numeral: "ids_desc (numeral k) = numeral k # ids_desc (pred_numeral k)"
proof -
  have "ids_desc (numeral k) = ids_desc (Suc (pred_numeral k))"
    by (simp only: numeral_eq_Suc)
  also have "\<dots> = of_nat (Suc (pred_numeral k)) # ids_desc (pred_numeral k)"
    by (simp only: ids_desc.simps)
  also have "of_nat (Suc (pred_numeral k)) = (of_nat (numeral k) :: uint256)"
    by (simp only: numeral_eq_Suc)
  finally show ?thesis by simp
qed

lemma ids3: "activeIds (run [SubmitCTI 7 0 ''QmHash1'' ''Malware'' ''T1'',
       SubmitCTI 7 0 ''QmHash2'' ''Phishing'' ''T2'',
       SubmitCTI 7 0 ''QmHash3'' ''Ransomware'' ''T3''] init_state) = [3, 2, 1]"
  by (simp add: init_state_def zero_CTI_def submitCTI_def checked_inc_def activeIds_def
      ids_desc_numeral)

text \<open>C2: for a limit in \<open>[1, 100]\<close>, any offset and any state, \<open>getActiveCTIs\<close>
  returns the slice \<open>[offset, offset + limit)\<close> of the active ids in descending order:
  inactive records take no part in the counting, the result is as long as the limit or
  as what is left after the offset, and the pages at offsets \<open>0, limit, 2 * limit, \<dots>\<close>
  put one after the other are the whole sequence, which has no duplicates, is strictly
  descending and holds exactly the active assigned ids.\<close>

theorem getActiveCTIs_page:
  assumes "1 \<le> p_limit" and "p_limit \<le> 100"
  shows "getActiveCTIs s p_limit p_offset
      = Inr (take (unat p_limit) (drop (unat p_offset) (activeIds s)))
    \<and> (\<exists>ids. getActiveCTIs s p_limit p_offset = Inr ids
          \<and> length ids = min (unat p_limit) (length (activeIds s) - unat p_offset))
    \<and> pages s p_limit (Suc (length (activeIds s) div unat p_limit)) = Inr (activeIds s)
    \<and> distinct (activeIds s)
    \<and> sorted_wrt (\<lambda>a b. b < a) (activeIds s)
    \<and> set (activeIds s) = {i. 0 < i \<and> i \<le> ctiCounter s \<and> isActive (ctiRecords s i)}"
proof -
  let ?l = "unat p_limit" and ?n = "length (activeIds s)"
  have slice: "getActiveCTIs s p_limit p_offset
      = Inr (take ?l (drop (unat p_offset) (activeIds s)))"
    using assms by (rule getActiveCTIs_slice)
  have lpos: "0 < ?l"
    using assms(1) by (simp add: word_le_nat_alt)
  have "?n div ?l * ?l \<le> ?n" by simp
  also have "?n \<le> unat (ctiCounter s)" by (rule length_activeIds)
  also have "\<dots> < 2 ^ 256" using unsigned_less [of "ctiCounter s"] by simp
  finally have "(Suc (?n div ?l) - 1) * ?l < 2 ^ 256" by simp
  then have "pages s p_limit (Suc (?n div ?l))
      = Inr (take (Suc (?n div ?l) * ?l) (activeIds s))"
    by (rule pages_prefix [OF assms])
  moreover have "?n \<le> Suc (?n div ?l) * ?l"
    using lpos dividend_less_div_times [of ?l ?n] by (simp add: mult.commute)
  ultimately have all: "pages s p_limit (Suc (?n div ?l)) = Inr (activeIds s)"
    by simp
  from slice all show ?thesis
    by (simp add: distinct_activeIds sorted_activeIds set_activeIds)
qed

theorem getActiveCTIs_page_witness:
  "getActiveCTIs (run [SubmitCTI 7 0 ''QmHash1'' ''Malware'' ''T1'',
       SubmitCTI 7 0 ''QmHash2'' ''Phishing'' ''T2'',
       SubmitCTI 7 0 ''QmHash3'' ''Ransomware'' ''T3''] init_state) 2 0 = Inr [3, 2]
   \<and> getActiveCTIs (run [SubmitCTI 7 0 ''QmHash1'' ''Malware'' ''T1'',
       SubmitCTI 7 0 ''QmHash2'' ''Phishing'' ''T2'',
       SubmitCTI 7 0 ''QmHash3'' ''Ransomware'' ''T3''] init_state) 2 1 = Inr [2, 1]"
proof -
  have l: "(1 :: uint256) \<le> 2" "(2 :: uint256) \<le> 100"
    by (simp_all add: word_le_nat_alt)
  have t: "take (unat (2 :: uint256)) (drop (unat (0 :: uint256)) [3, 2, 1 :: uint256]) = [3, 2]"
    "take (unat (2 :: uint256)) (drop (unat (1 :: uint256)) [3, 2, 1 :: uint256]) = [2, 1]"
    by simp_all
  show ?thesis
    using getActiveCTIs_page [OF l, THEN conjunct1] by (simp only: ids3 t)
qed

section \<open>Votes\<close>

lemma voted_exec:
  assumes "0 < p_id \<and> p_id \<le> ctiCounter s \<and> isActive (ctiRecords s p_id)
      \<and> hasVoted s p_id voter"
  shows "0 < p_id \<and> p_id \<le> ctiCounter (fst (exec c s))
      \<and> isActive (ctiRecords (fst (exec c s)) p_id) \<and> hasVoted (fst (exec c s)) p_id voter"
proof (cases c s rule: exec_cases)
  case same
  with assms show ?thesis by simp
next
  case (submit sender now p_ipfsHash p_category p_title)
  note sub = submitCTI_Inr [OF submit(2)]
  then have nm: "ctiCounter s \<noteq> - 1" by simp
  from assms inc_not_le [OF nm] have "p_id \<noteq> ctiCounter s + 1" by auto
  with sub assms nm show ?thesis
    by (auto simp: le_inc_iff)
next
  case (vote sender i p_isUpvote)
  from voteCTI_Inr [OF vote(2)] assms show ?thesis
    by auto
qed

lemma voted_run:
  "0 < p_id \<and> p_id \<le> ctiCounter s \<and> isActive (ctiRecords s p_id) \<and> hasVoted s p_id voter
   \<Longrightarrow> 0 < p_id \<and> p_id \<le> ctiCounter (run cs s)
      \<and> isActive (ctiRecords (run cs s) p_id) \<and> hasVoted (run cs s) p_id voter"
proof (induction cs arbitrary: s)
  case Nil
  then show ?case by simp
next
  case (Cons c cs)
  from Cons.IH [OF voted_exec [OF Cons.prems]] show ?case by simp
qed

text \<open>C5: after a successful vote of \<open>voter\<close> on \<open>p_id\<close>, in whatever state it was cast,
  and after any further transactions, each later vote of the same voter on the same id
  reverts with \<open>Already voted on this CTI\<close>, an \<open>AlreadyVoted\<close> failure, and the
  transaction leaves the state, and so both tallies of the record, as they were.\<close>

theorem second_vote_rejected:
  assumes "voteCTI voter p_id p_isUpvote s = Inr s1" and "s2 = run cs s1"
  shows "voteCTI voter p_id p_isUpvote' s2 = Inl (Error ''Already voted on this CTI'')
    \<and> fails_with (voteCTI voter p_id p_isUpvote' s2) AlreadyVoted
    \<and> fst (exec (VoteCTI voter p_id p_isUpvote') s2) = s2
    \<and> upvotes (ctiRecords (fst (exec (VoteCTI voter p_id p_isUpvote') s2)) p_id)
        = upvotes (ctiRecords s2 p_id)
    \<and> downvotes (ctiRecords (fst (exec (VoteCTI voter p_id p_isUpvote') s2)) p_id)
        = downvotes (ctiRecords s2 p_id)"
proof -
  from voteCTI_Inr [OF assms(1)]
  have "0 < p_id \<and> p_id \<le> ctiCounter s1 \<and> isActive (ctiRecords s1 p_id)
      \<and> hasVoted s1 p_id voter"
    by auto
  then have "0 < p_id \<and> p_id \<le> ctiCounter s2 \<and> isActive (ctiRecords s2 p_id)
      \<and> hasVoted s2 p_id voter"
    unfolding assms(2) by (rule voted_run)
  then have "voteCTI voter p_id p_isUpvote' s2 = Inl (Error ''Already voted on this CTI'')"
    by (simp add: voteCTI_def validCTI_def hasNotVoted_def)
  then show ?thesis by simp
qed

theorem second_vote_rejected_witness:
  "voteCTI 8 1 False (run [SubmitCTI 9 0 ''QmHash2'' ''Phishing'' ''T2'', VoteCTI 9 1 False]
      (fst (exec (VoteCTI 8 1 True)
        (run [SubmitCTI 7 0 ''QmTestHash'' ''Malware'' ''Test Threat''] init_state))))
     = Inl (Error ''Already voted on this CTI'')
   \<and> upvotes (ctiRecords (fst (exec (VoteCTI 8 1 False)
        (run [SubmitCTI 9 0 ''QmHash2'' ''Phishing'' ''T2'', VoteCTI 9 1 False]
          (fst (exec (VoteCTI 8 1 True)
            (run [SubmitCTI 7 0 ''QmTestHash'' ''Malware'' ''Test Threat''] init_state)))))) 1)
     = 1
   \<and> downvotes (ctiRecords (fst (exec (VoteCTI 8 1 False)
        (run [SubmitCTI 9 0 ''QmHash2'' ''Phishing'' ''T2'', VoteCTI 9 1 False]
          (fst (exec (VoteCTI 8 1 True)
            (run [SubmitCTI 7 0 ''QmTestHash'' ''Malware'' ''Test Threat''] init_state)))))) 1)
     = 1"
  using second_vote_rejected [of 8 1 True
      "run [SubmitCTI 7 0 ''QmTestHash'' ''Malware'' ''Test Threat''] init_state"
      "fst (exec (VoteCTI 8 1 True)
        (run [SubmitCTI 7 0 ''QmTestHash'' ''Malware'' ''Test Threat''] init_state))"
      "run [SubmitCTI 9 0 ''QmHash2'' ''Phishing'' ''T2'', VoteCTI 9 1 False]
      (fst (exec (VoteCTI 8 1 True)
        (run [SubmitCTI 7 0 ''QmTestHash'' ''Malware'' ''Test Threat''] init_state)))"
      "[SubmitCTI 9 0 ''QmHash2'' ''Phishing'' ''T2'', VoteCTI 9 1 False]" False]
  by (simp add: init_state_def zero_CTI_def submitCTI_def voteCTI_def validCTI_def
      hasNotVoted_def checked_inc_def word_le_nat_alt)

text \<open>C6: in every state the contract can reach, a vote on an active record by the
  record's own submitter reverts with \<open>Cannot vote on own submission\<close>, a
  \<open>SelfVoteForbidden\<close> failure, whatever was submitted and voted before; the transaction
  leaves the state, and so both tallies, as they were. The submitter can never have a
  recorded vote on the record, so the earlier duplicate-vote check does not fire.\<close>

theorem own_vote_forbidden:
  assumes "s = run cs init_state"
    and "0 < p_id" and "p_id \<le> ctiCounter s" and "isActive (ctiRecords s p_id)"
  shows "voteCTI (submitter (ctiRecords s p_id)) p_id p_isUpvote s
      = Inl (Error ''Cannot vote on own submission'')
    \<and> fails_with (voteCTI (submitter (ctiRecords s p_id)) p_id p_isUpvote s) SelfVoteForbidden
    \<and> fst (exec (VoteCTI (submitter (ctiRecords s p_id)) p_id p_isUpvote) s) = s"
proof -
  have "inv_votes s"
    using registry_inv_reachable [of cs] assms(1) by (simp add: registry_inv_def)
  then have "\<not> hasVoted s p_id (submitter (ctiRecords s p_id))"
    unfolding inv_votes_def by blast
  with assms(2-4) show ?thesis
    by (simp add: voteCTI_def validCTI_def hasNotVoted_def)
qed

theorem own_vote_forbidden_witness:
  "voteCTI 7 1 True (run [SubmitCTI 7 0 ''QmTestHash'' ''Malware'' ''Test Threat''] init_state)
      = Inl (Error ''Cannot vote on own submission'')
   \<and> fst (exec (VoteCTI 7 1 True)
        (run [SubmitCTI 7 0 ''QmTestHash'' ''Malware'' ''Test Threat''] init_state))
      = run [SubmitCTI 7 0 ''QmTestHash'' ''Malware'' ''Test Threat''] init_state"
  using own_vote_forbidden [of
      "run [SubmitCTI 7 0 ''QmTestHash'' ''Malware'' ''Test Threat''] init_state"
      "[SubmitCTI 7 0 ''QmTestHash'' ''Malware'' ''Test Threat'']" 1 True]
  by (simp add: init_state_def zero_CTI_def submitCTI_def checked_inc_def word_le_nat_alt)

text \<open>C8: \<open>hasUserVoted\<close> has no precondition on the id and cannot fail. For an id that
  was never assigned, in any state the contract can reach, it returns false, where
  \<open>getCTI\<close> and \<open>voteCTI\<close> fail with \<open>NotFound\<close>; the same holds in any state \<open>t\<close> for
  an inactive record on which the user has no recorded vote.\<close>

theorem hasUserVoted_total:
  assumes "s = run cs init_state"
  shows "(\<not> (0 < p_id \<and> p_id \<le> ctiCounter s) \<longrightarrow>
        hasUserVoted s p_id p_user = False
        \<and> exec (HasUserVoted p_id p_user) s = (s, Inr (RetBool False))
        \<and> fails_with (getCTI s p_id) NotFound
        \<and> fails_with (voteCTI p_user p_id p_isUpvote s) NotFound)
    \<and> (\<not> isActive (ctiRecords t p_id) \<and> \<not> hasVoted t p_id p_user \<longrightarrow>
        hasUserVoted t p_id p_user = False
        \<and> exec (HasUserVoted p_id p_user) t = (t, Inr (RetBool False))
        \<and> fails_with (getCTI t p_id) NotFound
        \<and> fails_with (voteCTI p_user p_id p_isUpvote t) NotFound)"
proof -
  have "inv_votes s"
    using registry_inv_reachable [of cs] assms(1) by (simp add: registry_inv_def)
  then have "\<not> (0 < p_id \<and> p_id \<le> ctiCounter s) \<longrightarrow> \<not> hasVoted s p_id p_user"
    unfolding inv_votes_def by blast
  then show ?thesis
    by (auto simp: hasUserVoted_def getCTI_def voteCTI_def validCTI_def)
qed

theorem hasUserVoted_total_witness:
  "hasUserVoted (run [SubmitCTI 7 0 ''QmTestHash'' ''Malware'' ''Test Threat''] init_state) 999 8
      = False
   \<and> fails_with (getCTI
        (run [SubmitCTI 7 0 ''QmTestHash'' ''Malware'' ''Test Threat''] init_state) 999) NotFound
   \<and> fails_with (voteCTI 8 999 True
        (run [SubmitCTI 7 0 ''QmTestHash'' ''Malware'' ''Test Threat''] init_state)) NotFound
   \<and> hasUserVoted (init_state\<lparr>ctiCounter := 1\<rparr>) 1 8 = False
   \<and> fails_with (getCTI (init_state\<lparr>ctiCounter := 1\<rparr>) 1) NotFound
   \<and> fails_with (voteCTI 8 1 True (init_state\<lparr>ctiCounter := 1\<rparr>)) NotFound"
  using hasUserVoted_total [of
      "run [SubmitCTI 7 0 ''QmTestHash'' ''Malware'' ''Test Threat''] init_state"
      "[SubmitCTI 7 0 ''QmTestHash'' ''Malware'' ''Test Threat'']" 999
      8 True "init_state\<lparr>ctiCounter := 1\<rparr>"]
    hasUserVoted_total [of
      "run [SubmitCTI 7 0 ''QmTestHash'' ''Malware'' ''Test Threat''] init_state"
      "[SubmitCTI 7 0 ''QmTestHash'' ''Malware'' ''Test Threat'']" 1
      8 True "init_state\<lparr>ctiCounter := 1\<rparr>"]
  by (simp add: init_state_def zero_CTI_def submitCTI_def checked_inc_def word_le_nat_alt)

section \<open>The score\<close>

lemma tally_bound:
  assumes "inv_tally s"
  shows "unat (upvotes (ctiRecords s i)) + unat (downvotes (ctiRecords s i)) \<le> 2 ^ 160"
proof -
  have "card {a. hasVoted s i a} \<le> card (UNIV :: address set)"
    by (rule card_mono) simp_all
  also have "\<dots> = 2 ^ 160" by (simp add: card_word)
  finally show ?thesis using assms by (simp add: inv_tally_def)
qed

lemma uint_tally_bound:
  assumes "unat (x :: uint256) \<le> 2 ^ 160"
  shows "uint x \<le> 2 ^ 160"
proof -
  have "int (unat x) \<le> int (2 ^ 160)"
    using assms by (simp only: of_nat_le_iff)
  then show ?thesis by (simp only: uint_nat) simp
qed

lemma sint_small:
  assumes "uint (x :: int256) < 2 ^ 255"
  shows "sint x = uint x"
proof -
  have "sint x = signed_take_bit 255 (uint x)"
    by (simp add: sint_uint)
  also have "\<dots> = uint x"
  proof (rule signed_take_bit_int_eq_self)
    have "- (2 ^ 255) \<le> (0 :: int)" by simp
    also have "0 \<le> uint x" by (rule uint_nonnegative)
    finally show "- (2 ^ 255) \<le> uint x" .
  qed (rule assms)
  finally show ?thesis .
qed

lemma checked_sub_small:
  assumes "uint (a :: int256) \<le> 2 ^ 160" and "uint (b :: int256) \<le> 2 ^ 160"
  shows "checked_sub_int256 a b = Inr (a - b)"
    and "sint (a - b) = uint a - uint b"
proof -
  have small: "(2 :: int) ^ 160 < 2 ^ 255" by simp
  have a: "sint a = uint a"
    using assms(1) small by (intro sint_small) (rule le_less_trans)
  have b: "sint b = uint b"
    using assms(2) small by (intro sint_small) (rule le_less_trans)
  have "- (2 ^ 255) \<le> - ((2 :: int) ^ 160)" by simp
  also have "\<dots> \<le> uint a - uint b"
    using assms(2) uint_nonnegative [of a] by linarith
  finally have lo: "- (2 ^ 255) \<le> uint a - uint b" .
  have "uint a - uint b \<le> 2 ^ 160"
    using assms(1) uint_nonnegative [of b] by linarith
  also note small
  finally have hi: "uint a - uint b < 2 ^ 255" .
  from lo hi show "checked_sub_int256 a b = Inr (a - b)"
    unfolding checked_sub_int256_def a b by (simp only: not_less [symmetric] if_False) simp
  have "sint (a - b) = signed_take_bit 255 (sint a - sint b)"
    by (simp add: sint_word_ariths)
  also have "\<dots> = sint a - sint b"
    unfolding a b using lo hi by (rule signed_take_bit_int_eq_self)
  finally show "sint (a - b) = uint a - uint b"
    by (simp only: a b)
qed

text \<open>C7: in every state the contract can reach, for every id in the assigned range whose
  record is active, \<open>getCTIScore\<close> returns the \<open>int256\<close> whose signed value is the
  record's upvotes minus its downvotes, possibly negative, and \<open>getCTI\<close> returns that
  record (the tallies of a record never exceed the number of addresses, so neither the
  conversions nor the subtraction overflow). Whenever \<open>getCTI\<close> returns a record the score
  is the difference of its tallies; the two functions fail in the same cases with the
  same error, \<open>NotFound\<close> when the id is outside the assigned range or the record is
  inactive.\<close>

theorem getCTIScore_difference:
  assumes "s = run cs init_state"
  shows "(0 < p_id \<and> p_id \<le> ctiCounter s \<and> isActive (ctiRecords s p_id) \<longrightarrow>
        getCTI s p_id = Inr (ctiRecords s p_id)
        \<and> getCTIScore s p_id
            = Inr (upvotes (ctiRecords s p_id) - downvotes (ctiRecords s p_id))
        \<and> sint (upvotes (ctiRecords s p_id) - downvotes (ctiRecords s p_id))
            = uint (upvotes (ctiRecords s p_id)) - uint (downvotes (ctiRecords s p_id)))
    \<and> (\<forall>r. getCTI s p_id = Inr r \<longrightarrow>
        getCTIScore s p_id = Inr (upvotes r - downvotes r)
        \<and> sint (upvotes r - downvotes r) = uint (upvotes r) - uint (downvotes r))
    \<and> (\<forall>e. getCTIScore s p_id = Inl e \<longleftrightarrow> getCTI s p_id = Inl e)
    \<and> (\<not> (0 < p_id \<and> p_id \<le> ctiCounter s \<and> isActive (ctiRecords s p_id)) \<longrightarrow>
        fails_with (getCTIScore s p_id) NotFound \<and> fails_with (getCTI s p_id) NotFound)"
proof -
  let ?r = "ctiRecords s p_id"
  have "inv_tally s"
    using registry_inv_reachable [of cs] assms by (simp add: registry_inv_def)
  then have "unat (upvotes ?r) + unat (downvotes ?r) \<le> 2 ^ 160"
    by (rule tally_bound)
  then have u: "unat (upvotes ?r) \<le> 2 ^ 160" and d: "unat (downvotes ?r) \<le> 2 ^ 160"
    by simp_all
  have up: "uint (upvotes ?r) \<le> 2 ^ 160"
    using u by (rule uint_tally_bound)
  have down: "uint (downvotes ?r) \<le> 2 ^ 160"
    using d by (rule uint_tally_bound)
  note sub = checked_sub_small [OF up down]
  show ?thesis
  proof (cases "validCTI s p_id")
    case (Inl e)
    then have "failure_of e = Some NotFound"
      by (auto simp: validCTI_def split: if_splits)
    with Inl show ?thesis
      by (auto simp: getCTI_def getCTIScore_def validCTI_def split: if_splits)
  next
    case (Inr u)
    then have "0 < p_id \<and> p_id \<le> ctiCounter s \<and> isActive ?r"
      by (auto simp: validCTI_def split: if_splits)
    with Inr sub show ?thesis
      by (simp add: getCTI_def getCTIScore_def Let_def)
  qed
qed

theorem getCTIScore_difference_witness:
  "getCTIScore (run [SubmitCTI 7 0 ''QmHash1'' ''Malware'' ''T1'',
       SubmitCTI 7 0 ''QmHash2'' ''Phishing'' ''T2'',
       VoteCTI 8 1 True, VoteCTI 9 1 True, VoteCTI 8 2 False] init_state) 2 = Inr (- 1)
   \<and> sint (- 1 :: int256) = - 1
   \<and> getCTIScore (run [SubmitCTI 7 0 ''QmHash1'' ''Malware'' ''T1'',
       SubmitCTI 7 0 ''QmHash2'' ''Phishing'' ''T2'',
       VoteCTI 8 1 True, VoteCTI 9 1 True, VoteCTI 8 2 False] init_state) 1 = Inr 2
   \<and> fails_with (getCTIScore (run [SubmitCTI 7 0 ''QmHash1'' ''Malware'' ''T1'',
       SubmitCTI 7 0 ''QmHash2'' ''Phishing'' ''T2'',
       VoteCTI 8 1 True, VoteCTI 9 1 True, VoteCTI 8 2 False] init_state) 3) NotFound"
proof -
  let ?cs = "[SubmitCTI 7 0 ''QmHash1'' ''Malware'' ''T1'',
       SubmitCTI 7 0 ''QmHash2'' ''Phishing'' ''T2'',
       VoteCTI 8 1 True, VoteCTI 9 1 True, VoteCTI 8 2 False]"
  have st: "ctiCounter (run ?cs init_state) = 2"
    "isActive (ctiRecords (run ?cs init_state) 1)"
    "isActive (ctiRecords (run ?cs init_state) 2)"
    "upvotes (ctiRecords (run ?cs init_state) 1) = 2"
    "downvotes (ctiRecords (run ?cs init_state) 1) = 0"
    "upvotes (ctiRecords (run ?cs init_state) 2) = 0"
    "downvotes (ctiRecords (run ?cs init_state) 2) = 1"
    by (simp_all add: init_state_def zero_CTI_def submitCTI_def voteCTI_def validCTI_def
        hasNotVoted_def checked_inc_def word_le_nat_alt)
  have r1: "(0 :: uint256) < 1 \<and> 1 \<le> ctiCounter (run ?cs init_state)
      \<and> isActive (ctiRecords (run ?cs init_state) 1)"
    and r2: "(0 :: uint256) < 2 \<and> 2 \<le> ctiCounter (run ?cs init_state)
      \<and> isActive (ctiRecords (run ?cs init_state) 2)"
    and r3: "\<not> ((0 :: uint256) < 3 \<and> 3 \<le> ctiCounter (run ?cs init_state)
      \<and> isActive (ctiRecords (run ?cs init_state) 3))"
    by (simp_all only: st) (simp_all add: word_le_nat_alt)
  note t1 = getCTIScore_difference [of _ ?cs 1, OF refl, THEN conjunct1, rule_format, OF r1]
  note t2 = getCTIScore_difference [of _ ?cs 2, OF refl, THEN conjunct1, rule_format, OF r2]
  note t3 = getCTIScore_difference [of _ ?cs 3, OF refl, THEN conjunct2, THEN conjunct2,
      THEN conjunct2, rule_format, OF r3]
  from t1 [unfolded st] have "getCTIScore (run ?cs init_state) 1 = Inr 2"
    by simp
  moreover from t2 [unfolded st] have "getCTIScore (run ?cs init_state) 2 = Inr (- 1)"
    by simp
  moreover from t3 have "fails_with (getCTIScore (run ?cs init_state) 3) NotFound"
    by simp
  ultimately show ?thesis by simp
qed

section \<open>Sequential identifiers\<close>

lemma counter_exec:
  "unat (ctiCounter (fst (exec c s)))
     = unat (ctiCounter s) + (if is_submit c \<and> succeeded (snd (exec c s)) then 1 else 0)"
proof (cases c s rule: exec_cases)
  case same
  have "\<not> (is_submit c \<and> succeeded (snd (exec c s)))"
  proof
    assume a: "is_submit c \<and> succeeded (snd (exec c s))"
    then obtain sender now h cat t where c: "c = SubmitCTI sender now h cat t"
      by (cases c) auto
    with a obtain s' where s': "submitCTI sender now h cat t s = Inr s'"
      by (cases "submitCTI sender now h cat t s") auto
    with c same have "s' = s" by simp
    with submitCTI_Inr [OF s'] have "ctiCounter s = ctiCounter s + 1"
      by (metis (no_types, lifting) state.select_convs(1) state.surjective
          state.update_convs(1,2,4,5))
    then show False by simp
  qed
  with same show ?thesis by simp
next
  case (submit sender now p_ipfsHash p_category p_title)
  from submitCTI_Inr [OF submit(2)] submit(1,3) show ?thesis
    by (auto simp: unat_inc)
next
  case (vote sender p_id p_isUpvote)
  from voteCTI_Inr [OF vote(2)] vote(1) show ?thesis
    by auto
qed

lemma counter_run:
  "unat (ctiCounter (run cs s)) = unat (ctiCounter s) + submissions cs s"
  by (induction cs arbitrary: s) (simp_all add: counter_exec)

lemma assigned_ids:
  "{i :: uint256. 0 < i \<and> i \<le> c} = set (ids_desc (unat c))"
proof -
  have "unat c < 2 ^ 256" using unsigned_less [of c] by simp
  then show ?thesis by (auto simp: set_ids_desc word_le_nat_alt)
qed

lemma card_assigned_ids: "card {i :: uint256. 0 < i \<and> i \<le> c} = unat c"
proof -
  have "unat c < 2 ^ 256" using unsigned_less [of c] by simp
  then have "distinct (ids_desc (unat c))" by (rule distinct_ids_desc)
  then have "card (set (ids_desc (unat c))) = unat c"
    by (simp add: distinct_card)
  then show ?thesis by (simp only: assigned_ids)
qed

text \<open>C1, amended: in every state the contract can reach, \<open>ctiCounter\<close> is the number
  of successful \<open>submitCTI\<close> calls so far, the slots that hold a record are exactly the
  ids from 1 to \<open>ctiCounter\<close>, each record carries its own id, and their number is
  \<open>ctiCounter\<close>. The next successful \<open>submitCTI\<close> call, the nth when n - 1 have succeeded
  before, allocates id n: it sets \<open>ctiCounter\<close> to n, stores the new record under n and
  emits \<open>CTISubmitted\<close> with n. The call itself returns no value.\<close>

theorem submitCTI_sequential_ids:
  assumes "s = run cs init_state"
  shows "unat (ctiCounter s) = submissions cs init_state
    \<and> {i. ctiRecords s i \<noteq> zero_CTI} = {i. 0 < i \<and> i \<le> ctiCounter s}
    \<and> card {i. ctiRecords s i \<noteq> zero_CTI} = unat (ctiCounter s)
    \<and> (\<forall>i. 0 < i \<and> i \<le> ctiCounter s \<longrightarrow> cti_id (ctiRecords s i) = i)
    \<and> (\<forall>s'. submitCTI sender now p_ipfsHash p_category p_title s = Inr s' \<longrightarrow>
          exec (SubmitCTI sender now p_ipfsHash p_category p_title) s = (s', Inr Void)
          \<and> unat (ctiCounter s') = Suc (submissions cs init_state)
          \<and> ctiRecords s' (ctiCounter s') =
              \<lparr>cti_id = ctiCounter s', submitter = sender, ipfsHash = p_ipfsHash,
               category = p_category, title = p_title, timestamp = now,
               upvotes = 0, downvotes = 0, isActive = True\<rparr>
          \<and> emitted s' = emitted s @
              [CTISubmitted (ctiCounter s') sender p_ipfsHash p_category p_title])"
proof -
  have inv: "inv_records s"
    using registry_inv_reachable [of cs] assms by (simp add: registry_inv_def)
  have count: "unat (ctiCounter s) = submissions cs init_state"
    unfolding assms by (simp add: counter_run init_state_def)
  have dense: "{i. ctiRecords s i \<noteq> zero_CTI} = {i. 0 < i \<and> i \<le> ctiCounter s}"
    using inv by (auto simp: inv_records_def zero_CTI_def)
  have card: "card {i. ctiRecords s i \<noteq> zero_CTI} = unat (ctiCounter s)"
    unfolding dense by (rule card_assigned_ids)
  have ids: "\<forall>i. 0 < i \<and> i \<le> ctiCounter s \<longrightarrow> cti_id (ctiRecords s i) = i"
    using inv by (simp add: inv_records_def)
  have next_id: "exec (SubmitCTI sender now p_ipfsHash p_category p_title) s = (s', Inr Void)
          \<and> unat (ctiCounter s') = Suc (submissions cs init_state)
          \<and> ctiRecords s' (ctiCounter s') =
              \<lparr>cti_id = ctiCounter s', submitter = sender, ipfsHash = p_ipfsHash,
               category = p_category, title = p_title, timestamp = now,
               upvotes = 0, downvotes = 0, isActive = True\<rparr>
          \<and> emitted s' = emitted s @
              [CTISubmitted (ctiCounter s') sender p_ipfsHash p_category p_title]"
    if ok: "submitCTI sender now p_ipfsHash p_category p_title s = Inr s'" for s'
    using submitCTI_Inr [OF ok] ok count by (auto simp: unat_inc)
  from count dense card ids next_id show ?thesis
    by blast
qed

theorem submitCTI_sequential_ids_witness:
  "submissions [SubmitCTI 7 0 ''QmHash1'' ''Malware'' ''T1'',
       SubmitCTI 7 0 ''QmHash2'' ''Phishing'' [], VoteCTI 8 1 True,
       SubmitCTI 8 0 ''QmHash2'' ''Phishing'' ''T2''] init_state = 2
   \<and> ctiCounter (run [SubmitCTI 7 0 ''QmHash1'' ''Malware'' ''T1'',
       SubmitCTI 7 0 ''QmHash2'' ''Phishing'' [], VoteCTI 8 1 True,
       SubmitCTI 8 0 ''QmHash2'' ''Phishing'' ''T2''] init_state) = 2
   \<and> unat (ctiCounter (fst (exec (SubmitCTI 7 0 ''QmHash3'' ''Ransomware'' ''T3'')
        (run [SubmitCTI 7 0 ''QmHash1'' ''Malware'' ''T1'',
          SubmitCTI 7 0 ''QmHash2'' ''Phishing'' [], VoteCTI 8 1 True,
          SubmitCTI 8 0 ''QmHash2'' ''Phishing'' ''T2''] init_state)))) = 3
   \<and> snd (exec (SubmitCTI 7 0 ''QmHash3'' ''Ransomware'' ''T3'')
        (run [SubmitCTI 7 0 ''QmHash1'' ''Malware'' ''T1'',
          SubmitCTI 7 0 ''QmHash2'' ''Phishing'' [], VoteCTI 8 1 True,
          SubmitCTI 8 0 ''QmHash2'' ''Phishing'' ''T2''] init_state)) = Inr Void"
proof -
  let ?cs = "[SubmitCTI 7 0 ''QmHash1'' ''Malware'' ''T1'',
       SubmitCTI 7 0 ''QmHash2'' ''Phishing'' [], VoteCTI 8 1 True,
       SubmitCTI 8 0 ''QmHash2'' ''Phishing'' ''T2'']"
  note t = submitCTI_sequential_ids [OF refl, of ?cs 7 0 "''QmHash3''" "''Ransomware''" "''T3''"]
  have n: "submissions ?cs init_state = 2"
    by (simp add: init_state_def zero_CTI_def submitCTI_def voteCTI_def validCTI_def
        hasNotVoted_def checked_inc_def word_le_nat_alt)
  have c: "unat (ctiCounter (run ?cs init_state)) = 2"
    using t [THEN conjunct1] n by simp
  then have c2: "ctiCounter (run ?cs init_state) = 2"
    by (simp add: word_unat_eq_iff)
  obtain s' where s': "submitCTI 7 0 ''QmHash3'' ''Ransomware'' ''T3'' (run ?cs init_state) = Inr s'"
    by (simp add: init_state_def zero_CTI_def submitCTI_def voteCTI_def validCTI_def
        hasNotVoted_def checked_inc_def word_le_nat_alt)
  from t [THEN conjunct2, THEN conjunct2, THEN conjunct2, THEN conjunct2, rule_format, OF s']
  have "exec (SubmitCTI 7 0 ''QmHash3'' ''Ransomware'' ''T3'') (run ?cs init_state) = (s', Inr Void)"
    and "unat (ctiCounter s') = Suc (submissions ?cs init_state)"
    by blast+
  with n c2 show ?thesis by simp
qed

text \<open>The first successful \<open>submitCTI\<close> call after deployment allocates id 1 and returns
  no value: the function has no \<open>returns\<close> clause, so the id is not its result.\<close>

theorem submitCTI_returns_nothing:
  "snd (exec (SubmitCTI 7 0 ''QmTestHash123'' ''Malware'' ''Test Threat Report'') init_state)
     = Inr Void
   \<and> snd (exec (SubmitCTI 7 0 ''QmTestHash123'' ''Malware'' ''Test Threat Report'') init_state)
     \<noteq> Inr (RetUint 1)
   \<and> ctiCounter (fst (exec (SubmitCTI 7 0 ''QmTestHash123'' ''Malware'' ''Test Threat Report'')
        init_state)) = 1"
  by (simp add: init_state_def zero_CTI_def submitCTI_def checked_inc_def)

section \<open>Records stay active\<close>

lemma unat_lt_max:
  assumes "(x :: 'a::len word) \<noteq> - 1"
  shows "unat x < 2 ^ LENGTH('a) - 1"
proof -
  have "unat x \<noteq> unat (- 1 :: 'a word)"
    using assms by (simp add: word_unat_eq_iff)
  then have "unat x \<noteq> 2 ^ LENGTH('a) - 1"
    unfolding unat_max .
  moreover have "unat x < 2 ^ LENGTH('a)"
    by (rule unsigned_less)
  ultimately show ?thesis by linarith
qed

lemma ids_desc_rev: "ids_desc n = rev (map of_nat [1..<Suc n])"
  by (induction n) simp_all

lemma count_loop_counts:
  assumes "ctiCounter s \<noteq> - 1" and "unat n < unat i"
  shows "\<exists>r. count_loop s i n = Inr r
     \<and> unat r = unat n + length (filter (\<lambda>j. isActive (ctiRecords s j))
         (map of_nat [unat i..<Suc (unat (ctiCounter s))]))"
  using assms
proof (induction s i n rule: count_loop.induct)
  case (1 s i n)
  let ?act = "\<lambda>j. isActive (ctiRecords s j)" and ?c = "unat (ctiCounter s)"
  show ?case
  proof (cases "i \<le> ctiCounter s")
    case False
    then have "count_loop s i n = Inr n"
      by (subst count_loop.simps) simp
    moreover from False have "[unat i..<Suc ?c] = []"
      by (simp add: word_le_nat_alt)
    ultimately show ?thesis by simp
  next
    case True
    then have ic: "unat i \<le> ?c" by (simp add: word_le_nat_alt)
    have cmax: "?c < 2 ^ 256 - 1"
      using unat_lt_max [OF "1.prems"(1)] by simp
    have i_nm: "i \<noteq> - 1"
      using ic cmax by (auto simp: unat_max)
    have n_nm: "n \<noteq> - 1"
      using "1.prems"(2) ic cmax by (auto simp: unat_max)
    define n' where "n' = (if ?act i then n + 1 else n)"
    have step_n: "(if ?act i then checked_inc n else Inr n) = Inr n'"
      using n_nm by (simp add: n'_def checked_inc_def)
    have step_i: "checked_inc i = Inr (i + 1)"
      using i_nm by (simp add: checked_inc_def)
    have unfold: "count_loop s i n = count_loop s (i + 1) n'"
      using True step_n step_i by (subst count_loop.simps) simp
    have un': "unat n' = unat n + (if ?act i then 1 else 0)"
      using n_nm by (simp add: n'_def unat_inc)
    have ui': "unat (i + 1) = Suc (unat i)"
      using i_nm by (rule unat_inc)
    have "unat n' < unat (i + 1)"
      using "1.prems"(2) un' ui' by simp
    from "1.IH" [OF True step_n step_i "1.prems"(1) this]
    obtain r where r: "count_loop s (i + 1) n' = Inr r"
      and ur: "unat r = unat n' + length (filter ?act
         (map of_nat [unat (i + 1)..<Suc ?c]))"
      by blast
    have "[unat i..<Suc ?c] = unat i # [Suc (unat i)..<Suc ?c]"
      using ic by (simp add: upt_conv_Cons)
    then have "length (filter ?act (map of_nat [unat i..<Suc ?c]))
        = (if ?act i then 1 else 0)
          + length (filter ?act (map of_nat [unat (i + 1)..<Suc ?c]))"
      by (simp add: ui')
    with unfold r ur un' show ?thesis by simp
  qed
qed

lemma getActiveCTICount_scan:
  assumes "ctiCounter s \<noteq> - 1"
  shows "getActiveCTICount s = Inr (of_nat (length (activeIds s)))"
proof -
  have "unat (0 :: uint256) < unat (1 :: uint256)" by simp
  from count_loop_counts [OF assms this]
  obtain r where r: "count_loop s 1 0 = Inr r"
    and ur: "unat r = length (filter (\<lambda>j. isActive (ctiRecords s j))
         (map of_nat [1..<Suc (unat (ctiCounter s))]))"
    by auto
  have "length (activeIds s) = unat r"
    unfolding activeIds_def ids_desc_rev ur by (simp flip: rev_filter)
  then have "r = of_nat (length (activeIds s))" by simp
  with r show ?thesis by (simp add: getActiveCTICount_def)
qed

lemma isActive_exec:
  assumes "isActive (ctiRecords t i)"
  shows "isActive (ctiRecords (fst (exec c t)) i)"
proof (cases c t rule: exec_cases)
  case same
  with assms show ?thesis by simp
next
  case (submit sender now p_ipfsHash p_category p_title)
  from submitCTI_Inr [OF submit(2)] assms show ?thesis
    by auto
next
  case (vote sender p_id p_isUpvote)
  from voteCTI_Inr [OF vote(2)] assms show ?thesis
    by auto
qed

lemma submissions_le_length: "submissions cs s \<le> length cs"
  by (induction cs arbitrary: s) (simp_all add: le_SucI)

text \<open>C10: in every state the contract can reach, every assigned record is active; no
  transaction turns an active record inactive; \<open>CTIDeactivated\<close> was never emitted; the
  active ids are all the assigned ids, so their number is \<open>ctiCounter\<close>; the guard
  \<open>validCTI\<close> of \<open>getCTI\<close>, \<open>getCTIScore\<close> and \<open>voteCTI\<close> rejects an id only for being
  outside the assigned range. \<open>getActiveCTICount\<close> returns \<open>ctiCounter\<close>, the number of
  assigned ids, after every sequence of fewer than \<open>2 ^ 256 - 1\<close> transactions, and more
  generally whenever \<open>ctiCounter\<close> is not the largest \<open>uint256\<close>.\<close>

theorem records_stay_active:
  assumes "s = run cs init_state"
  shows "(\<forall>i. 0 < i \<and> i \<le> ctiCounter s \<longrightarrow> isActive (ctiRecords s i))
    \<and> (\<forall>c t i. isActive (ctiRecords t i) \<longrightarrow> isActive (ctiRecords (fst (exec c t)) i))
    \<and> (\<forall>i. CTIDeactivated i \<notin> set (emitted s))
    \<and> activeIds s = ids_desc (unat (ctiCounter s))
    \<and> length (activeIds s) = unat (ctiCounter s)
    \<and> (\<forall>i. validCTI s i =
          (if 0 < i \<and> i \<le> ctiCounter s then Inr () else Inl (Error ''CTI does not exist'')))
    \<and> (length cs < 2 ^ 256 - 1 \<longrightarrow> getActiveCTICount s = Inr (ctiCounter s))
    \<and> (ctiCounter s \<noteq> - 1 \<longrightarrow> getActiveCTICount s = Inr (ctiCounter s))"
proof -
  have inv: "inv_records s" "inv_events s"
    using registry_inv_reachable [of cs] assms by (simp_all add: registry_inv_def)
  have active: "\<forall>i. 0 < i \<and> i \<le> ctiCounter s \<longrightarrow> isActive (ctiRecords s i)"
    using inv(1) by (simp add: inv_records_def)
  have events: "\<forall>i. CTIDeactivated i \<notin> set (emitted s)"
    using inv(2) by (simp add: inv_events_def)
  have "\<forall>i \<in> set (ids_desc (unat (ctiCounter s))). isActive (ctiRecords s i)"
    using active by (simp flip: assigned_ids)
  then have all: "activeIds s = ids_desc (unat (ctiCounter s))"
    by (simp add: activeIds_def)
  then have len: "length (activeIds s) = unat (ctiCounter s)"
    by simp
  have guard: "\<forall>i. validCTI s i =
      (if 0 < i \<and> i \<le> ctiCounter s then Inr () else Inl (Error ''CTI does not exist''))"
    using active by (simp add: validCTI_def)
  have cnt: "getActiveCTICount s = Inr (ctiCounter s)" if "ctiCounter s \<noteq> - 1"
    using getActiveCTICount_scan [OF that] len by simp
  have short: "getActiveCTICount s = Inr (ctiCounter s)" if few: "length cs < 2 ^ 256 - 1"
  proof (rule cnt)
    have "unat (ctiCounter s) = submissions cs init_state"
      unfolding assms by (simp add: counter_run init_state_def)
    also have "\<dots> \<le> length cs" by (rule submissions_le_length)
    finally have "unat (ctiCounter s) < 2 ^ 256 - 1"
      using few by (rule le_less_trans)
    then have "unat (ctiCounter s) \<noteq> unat (- 1 :: uint256)"
      by (simp add: unat_max)
    then show "ctiCounter s \<noteq> - 1"
      by (simp only: word_unat_eq_iff) simp
  qed
  from active events all len guard short cnt isActive_exec show ?thesis
    by blast
qed

theorem records_stay_active_witness:
  "getActiveCTICount (run [SubmitCTI 7 0 ''QmHash1'' ''Malware'' ''T1'',
       SubmitCTI 7 0 ''QmHash2'' ''Phishing'' ''T2'',
       SubmitCTI 7 0 ''QmHash3'' ''Ransomware'' ''T3''] init_state) = Inr 3
   \<and> isActive (ctiRecords (run [SubmitCTI 7 0 ''QmHash1'' ''Malware'' ''T1'',
       SubmitCTI 7 0 ''QmHash2'' ''Phishing'' ''T2'',
       SubmitCTI 7 0 ''QmHash3'' ''Ransomware'' ''T3''] init_state) 2)
   \<and> isActive (ctiRecords (fst (exec (VoteCTI 8 2 False)
       (run [SubmitCTI 7 0 ''QmHash1'' ''Malware'' ''T1'',
       SubmitCTI 7 0 ''QmHash2'' ''Phishing'' ''T2'',
       SubmitCTI 7 0 ''QmHash3'' ''Ransomware'' ''T3''] init_state))) 2)"
proof -
  let ?cs = "[SubmitCTI 7 0 ''QmHash1'' ''Malware'' ''T1'',
       SubmitCTI 7 0 ''QmHash2'' ''Phishing'' ''T2'',
       SubmitCTI 7 0 ''QmHash3'' ''Ransomware'' ''T3'']"
  note t = records_stay_active [OF refl, of ?cs]
  have c: "ctiCounter (run ?cs init_state) = 3"
    by (simp add: init_state_def zero_CTI_def submitCTI_def checked_inc_def)
  have r: "(0 :: uint256) < 2 \<and> 2 \<le> ctiCounter (run ?cs init_state)"
    unfolding c by simp
  have a: "isActive (ctiRecords (run ?cs init_state) 2)"
    using t [THEN conjunct1, rule_format, OF r] .
  have b: "isActive (ctiRecords (fst (exec (VoteCTI 8 2 False) (run ?cs init_state))) 2)"
    using t [THEN conjunct2, THEN conjunct1, rule_format, OF a] .
  have few: "length ?cs < 2 ^ 256 - 1"
    by simp
  from t [THEN conjunct2, THEN conjunct2, THEN conjunct2, THEN conjunct2, THEN conjunct2,
      THEN conjunct2, THEN conjunct1, rule_format, OF few]
  have "getActiveCTICount (run ?cs init_state) = Inr 3"
    unfolding c .
  with a b show ?thesis by blast
qed

end
